theory Spec2Isabelle
  imports Main "HOL-Library.Multiset" "HOL-Library.Sublist" "HOL-Library.List_Lexorder"
    "HOL-Library.Char_ord"
begin

section \<open>Strings, dictionaries and the row fingerprint\<close>

text \<open>
  The development follows \<^verbatim>\<open>src/sol.py\<close>. Python texts are modelled as \<^typ>\<open>string\<close>;
  a \<^typ>\<open>char\<close> stands for a code point below 256. The order on strings is the
  lexicographic order on code points, which is how Python compares \<^verbatim>\<open>str\<close> values.
\<close>

text \<open>\<^verbatim>\<open>str.strip()\<close>: the white space of Python among the code points below 256.\<close>

definition py_isspace :: "char \<Rightarrow> bool" where
  "py_isspace c =
     (let n = (of_char c :: nat)
      in (9 \<le> n \<and> n \<le> 13) \<or> (28 \<le> n \<and> n \<le> 32) \<or> n = 133 \<or> n = 160)"

definition strip :: "string \<Rightarrow> string" where
  "strip s = rev (dropWhile py_isspace (rev (dropWhile py_isspace s)))"

text \<open>The decimal text of a natural number, as \<^verbatim>\<open>f"{i}"\<close> prints it.\<close>

definition digit_char :: "nat \<Rightarrow> char" where
  "digit_char n = ''0123456789abcdef'' ! n"

function str_of_nat :: "nat \<Rightarrow> string" where
  "str_of_nat n =
     (if n < 10 then [digit_char n] else str_of_nat (n div 10) @ [digit_char (n mod 10)])"
  by pat_completeness auto
termination
  by (relation "measure (\<lambda>n. n)") auto

declare str_of_nat.simps [simp del]

definition col_name :: "nat \<Rightarrow> string" where
  "col_name i = ''col_'' @ str_of_nat i"

text \<open>
  A Python \<^verbatim>\<open>dict\<close> with text keys and text values: the items in insertion order, the
  keys pairwise distinct. Storing under a key that is present replaces the value and
  keeps the position; a new key goes to the end.
\<close>

type_synonym row = "(string \<times> string) list"

fun dict_set :: "'k \<Rightarrow> 'v \<Rightarrow> ('k \<times> 'v) list \<Rightarrow> ('k \<times> 'v) list" where
  "dict_set k v [] = [(k, v)]"
| "dict_set k v ((k', v') # d) =
     (if k' = k then (k', v) # d else (k', v') # dict_set k v d)"

text \<open>A dict comprehension \<^verbatim>\<open>{key(i): value(i) for i in ...}\<close> stores the items in turn.\<close>

definition dict_of :: "('k \<times> 'v) list \<Rightarrow> ('k \<times> 'v) list" where
  "dict_of items = foldl (\<lambda>d (k, v). dict_set k v d) [] items"

text \<open>
  \<^verbatim>\<open>json.dumps(row, sort_keys=True)\<close> on a dict of texts, with the defaults of the
  standard library (\<^verbatim>\<open>ensure_ascii=True\<close>, separators \<^verbatim>\<open>", "\<close> and \<^verbatim>\<open>": "\<close>): the items
  are sorted by key, every text is quoted and escaped.
\<close>

definition json_escape_char :: "char \<Rightarrow> string" where
  "json_escape_char c =
     (let n = (of_char c :: nat) in
      if c = CHR 0x22 then [CHR 0x5C, CHR 0x22]
      else if c = CHR 0x5C then [CHR 0x5C, CHR 0x5C]
      else if c = CHR 0x0A then [CHR 0x5C, CHR ''n'']
      else if c = CHR 0x0D then [CHR 0x5C, CHR ''r'']
      else if c = CHR 0x09 then [CHR 0x5C, CHR ''t'']
      else if c = CHR 0x08 then [CHR 0x5C, CHR ''b'']
      else if c = CHR 0x0C then [CHR 0x5C, CHR ''f'']
      else if 32 \<le> n \<and> n \<le> 126 then [c]
      else [CHR 0x5C, CHR ''u'', CHR ''0'', CHR ''0'', digit_char (n div 16), digit_char (n mod 16)])"

definition json_string :: "string \<Rightarrow> string" where
  "json_string s = [CHR 0x22] @ concat (map json_escape_char s) @ [CHR 0x22]"

fun join_with :: "string \<Rightarrow> string list \<Rightarrow> string" where
  "join_with sep [] = []"
| "join_with sep [x] = x"
| "join_with sep (x # y # ys) = x @ sep @ join_with sep (y # ys)"

definition json_dumps_sorted :: "row \<Rightarrow> string" where
  "json_dumps_sorted d =
     ''{'' @ join_with '', '' (map (\<lambda>(k, v). json_string k @ '': '' @ json_string v)
                                (sort_key fst d)) @ ''}''"

section \<open>The deduplicating accumulator (\<^verbatim>\<open>add_rows\<close>, lines 221-228)\<close>

text \<open>
  \<^verbatim>\<open>add_rows\<close> is a closure over \<^verbatim>\<open>all_rows\<close> and \<^verbatim>\<open>seen_hashes\<close> of the harvest;
  the model passes both as a record and returns the updated one. The source function has
  no \<^verbatim>\<open>return\<close> statement, so a call evaluates to \<^verbatim>\<open>None\<close>.
\<close>

datatype py_value = PyNone | PyInt int

record accumulator =
  all_rows :: "row list"
  seen_hashes :: "string set"

definition empty_accumulator :: accumulator where
  "empty_accumulator = \<lparr>all_rows = [], seen_hashes = {}\<rparr>"

text \<open>One turn of the loop body of \<^verbatim>\<open>add_rows\<close>.\<close>

definition add_row :: "accumulator \<Rightarrow> row \<Rightarrow> accumulator" where
  "add_row a r =
     (let h = json_dumps_sorted r in
      if h \<notin> seen_hashes a
      then \<lparr>all_rows = all_rows a @ [r], seen_hashes = insert h (seen_hashes a)\<rparr>
      else a)"

definition add_rows :: "row list \<Rightarrow> accumulator \<Rightarrow> py_value \<times> accumulator" where
  "add_rows new_rows a = (PyNone, foldl add_row a new_rows)"

section \<open>The page as the harvester reads it\<close>

text \<open>
  The browser is driven through Playwright locators. A snapshot holds what the locator
  queries of \<^verbatim>\<open>extract_table_rows\<close>, \<^verbatim>\<open>has_next_page\<close> and \<^verbatim>\<open>harvest_all_pages\<close> can
  observe of one rendered page: the rows of the table element with their cells, the first
  element that matches the pagination selector, and the scroll container selectors that
  match. A table is a list of \<^verbatim>\<open>tr\<close> elements in document order; each knows the section
  it lies in and its \<^verbatim>\<open>role\<close> attribute, each cell its tag, its \<^verbatim>\<open>role\<close> attribute and
  its text content.
\<close>

datatype cell_tag = TH | TD | OtherTag

record cell =
  cell_tag :: cell_tag
  cell_role :: string
  cell_text :: string

datatype tr_section = InThead | InTbody | InTable

record tr =
  tr_section :: tr_section
  tr_role :: string
  tr_cells :: "cell list"

record table =
  table_visible :: bool
  table_trs :: "tr list"
  header_read_raises :: bool
  first_row_read_raises :: bool

record next_button =
  btn_disabled :: bool
  btn_disabled_inside :: nat
  btn_visible :: bool

record snapshot =
  aria_table :: "table option"
  html_table :: "table option"
  pagination_next :: "next_button option"
  present_selectors :: "string list"

text \<open>
  \<^verbatim>\<open>table.locator("thead tr th, thead th, [role='columnheader']").all_text_contents()\<close>:
  the \<^verbatim>\<open>th\<close> cells of the rows in the \<^verbatim>\<open>thead\<close> and every cell whose role is
  \<^verbatim>\<open>columnheader\<close>, in document order.
\<close>

definition is_header_cell :: "tr \<Rightarrow> cell \<Rightarrow> bool" where
  "is_header_cell t c \<longleftrightarrow>
     (tr_section t = InThead \<and> cell_tag c = TH) \<or> cell_role c = ''columnheader''"

definition header_texts :: "table \<Rightarrow> string list" where
  "header_texts tb =
     concat (map (\<lambda>t. map cell_text (filter (is_header_cell t) (tr_cells t))) (table_trs tb))"

text \<open>\<^verbatim>\<open>.locator("th, td, [role='cell']").all_text_contents()\<close> below one row.\<close>

definition is_data_cell :: "cell \<Rightarrow> bool" where
  "is_data_cell c \<longleftrightarrow> cell_tag c = TH \<or> cell_tag c = TD \<or> cell_role c = ''cell''"

definition row_texts :: "tr \<Rightarrow> string list" where
  "row_texts t = map cell_text (filter is_data_cell (tr_cells t))"

text \<open>
  \<^verbatim>\<open>table.locator("tr").nth(r)\<close> and \<^verbatim>\<open>table.locator("tbody tr, tr").nth(r)\<close> match the
  same elements, every \<^verbatim>\<open>tr\<close> of the table; beyond the last one the locator matches
  nothing and \<^verbatim>\<open>all_text_contents()\<close> is the empty list.
\<close>

definition cells_at :: "table \<Rightarrow> nat \<Rightarrow> string list" where
  "cells_at tb r = (if r < length (table_trs tb) then row_texts (table_trs tb ! r) else [])"

text \<open>\<^verbatim>\<open>table.locator("tbody tr, tr[role='row']").count()\<close>.\<close>

definition body_row_count :: "table \<Rightarrow> nat" where
  "body_row_count tb =
     length (filter (\<lambda>t. tr_section t = InTbody \<or> tr_role t = ''row'') (table_trs tb))"

section \<open>Table extraction (\<^verbatim>\<open>extract_table_rows\<close>, lines 139-194)\<close>

text \<open>\<^verbatim>\<open>[h.strip() or f"col_{i}" for i, h in enumerate(headers)]\<close>\<close>

definition normalize_headers :: "string list \<Rightarrow> string list" where
  "normalize_headers hs =
     map (\<lambda>(i, h). if strip h = [] then col_name i else strip h) (enumerate 0 hs)"

text \<open>
  Lines 155-172: the header keys and \<^verbatim>\<open>row_start_idx\<close>. The two reads are guarded by
  \<^verbatim>\<open>except Exception\<close>; the flags of the table say whether the read raises.
\<close>

definition derive_headers :: "table \<Rightarrow> string list \<times> nat" where
  "derive_headers tb =
     (let headers = (if header_read_raises tb then []
                     else normalize_headers (header_texts tb))
      in if headers = [] then
           (if first_row_read_raises tb then ([], 0)
            else (normalize_headers (cells_at tb 0), 1))
         else (headers, 1))"

text \<open>Lines 175-177: \<^verbatim>\<open>row_count\<close>.\<close>

definition row_count :: "table \<Rightarrow> nat" where
  "row_count tb =
     (if body_row_count tb = 0 then length (table_trs tb) else body_row_count tb)"

text \<open>Lines 182-187: pad or truncate the cells to the header count.\<close>

definition normalize_cells :: "string list \<Rightarrow> string list \<Rightarrow> string list" where
  "normalize_cells headers cells =
     (if headers \<noteq> [] \<and> length cells \<noteq> length headers then
        (if length cells < length headers
         then cells @ replicate (length headers - length cells) []
         else take (length headers) cells)
      else cells)"

text \<open>Lines 188-191: the row dict.\<close>

definition cell_value :: "string list \<Rightarrow> nat \<Rightarrow> string" where
  "cell_value cells i = (if i < length cells then strip (cells ! i) else [])"

definition build_row :: "string list \<Rightarrow> string list \<Rightarrow> row" where
  "build_row headers cells0 =
     (let cells = normalize_cells headers cells0 in
      if headers \<noteq> []
      then dict_of (map (\<lambda>i. (headers ! i, cell_value cells i)) [0..<length headers])
      else dict_of (map (\<lambda>i. (col_name i, cell_value cells i)) [0..<length cells]))"

text \<open>Lines 148-152: the table to read, the ARIA role first, the \<^verbatim>\<open>table\<close> tag second.\<close>

definition find_table :: "snapshot \<Rightarrow> table option" where
  "find_table s =
     (case aria_table s of
        Some tb \<Rightarrow> if table_visible tb then Some tb
                   else (case html_table s of
                           Some tb' \<Rightarrow> if table_visible tb' then Some tb' else None
                         | None \<Rightarrow> None)
      | None \<Rightarrow> (case html_table s of
                   Some tb' \<Rightarrow> if table_visible tb' then Some tb' else None
                 | None \<Rightarrow> None))"

definition read_table :: "table \<Rightarrow> row list" where
  "read_table tb =
     (let (headers, row_start_idx) = derive_headers tb
      in map (\<lambda>r. build_row headers (cells_at tb r)) [row_start_idx..<row_count tb])"

definition extract_table_rows :: "snapshot \<Rightarrow> row list" where
  "extract_table_rows s = (case find_table s of None \<Rightarrow> [] | Some tb \<Rightarrow> read_table tb)"

section \<open>Pagination (\<^verbatim>\<open>has_next_page\<close>, \<^verbatim>\<open>go_next_page\<close>, lines 196-214)\<close>

definition has_next_page :: "snapshot \<Rightarrow> bool" where
  "has_next_page s =
     (case pagination_next s of
        None \<Rightarrow> False
      | Some b \<Rightarrow> if btn_disabled b then False
                  else if btn_disabled_inside b > 0 then False
                  else btn_visible b)"

text \<open>
  A browser: what a page state shows, and the state after a click on the pagination
  button or after one scroll of a container. \<^verbatim>\<open>go_next_page\<close> clicks the first match of
  the pagination selector; the click raises (Playwright's timeout) unless the element is
  there, visible and enabled.
\<close>

record 'p browser =
  view :: "'p \<Rightarrow> snapshot"
  click_next :: "'p \<Rightarrow> 'p"
  scroll_by :: "string \<Rightarrow> 'p \<Rightarrow> 'p"

datatype error = PWTimeoutError

definition go_next_page :: "'p browser \<Rightarrow> 'p \<Rightarrow> error + 'p" where
  "go_next_page B p =
     (case pagination_next (view B p) of
        None \<Rightarrow> Inl PWTimeoutError
      | Some b \<Rightarrow> if btn_visible b \<and> \<not> btn_disabled b then Inr (click_next B p)
                  else Inl PWTimeoutError)"

section \<open>The harvest (\<^verbatim>\<open>harvest_all_pages\<close>, lines 216-257)\<close>

text \<open>
  The state of one harvest: the page, the accumulator, and a log of the browser
  interactions in the order in which the harvest performs them. The log is not in the
  source; it is what the statements about the number and the kind of steps speak of.
\<close>

datatype event = Read | HasNext bool | Advance | Probe | Scroll string

record 'p harvest_state =
  page :: 'p
  acc :: accumulator
  trace :: "event list"

definition initial_state :: "'p \<Rightarrow> 'p harvest_state" where
  "initial_state p = \<lparr>page = p, acc = empty_accumulator, trace = []\<rparr>"

text \<open>\<^verbatim>\<open>add_rows(extract_table_rows(page))\<close>\<close>

definition read_and_merge :: "'p browser \<Rightarrow> 'p harvest_state \<Rightarrow> 'p harvest_state" where
  "read_and_merge B st =
     st\<lparr>acc := snd (add_rows (extract_table_rows (view B (page st))) (acc st)),
        trace := trace st @ [Read]\<rparr>"

text \<open>
  Lines 232-240: the pagination loop, \<^verbatim>\<open>for _ in range(200)\<close>. The first argument counts
  the turns that are left; the result holds the state and the flag \<^verbatim>\<open>paginated\<close>.
\<close>

fun paginate ::
  "'p browser \<Rightarrow> nat \<Rightarrow> 'p harvest_state \<Rightarrow> bool \<Rightarrow> error + ('p harvest_state \<times> bool)" where
  "paginate B 0 st paginated = Inr (st, paginated)"
| "paginate B (Suc n) st paginated =
     (if has_next_page (view B (page st)) then
        (case go_next_page B (page st) of
           Inl e \<Rightarrow> Inl e
         | Inr p' \<Rightarrow>
             paginate B n
               (read_and_merge B (st\<lparr>page := p', trace := trace st @ [HasNext True, Advance]\<rparr>))
               True)
      else Inr (st\<lparr>trace := trace st @ [HasNext False]\<rparr>, paginated))"

definition pagination_cap :: nat where
  "pagination_cap = 200"

definition scroll_cap :: nat where
  "scroll_cap = 100"

definition SCROLLABLE_CANDIDATES :: "string list" where
  \<open>SCROLLABLE_CANDIDATES =
     [''[data-testid="table-container"], .table-container, .ag-center-cols-container'',
      ''.ReactVirtualized__Grid'',
      ''.infinite-scroll-component'',
      ''.ag-body-viewport'']\<close>

text \<open>Lines 247-248: the containers to scroll.\<close>

definition scroll_containers :: "snapshot \<Rightarrow> string list" where
  "scroll_containers s =
     (let containers = filter (\<lambda>c. c \<in> set (present_selectors s)) SCROLLABLE_CANDIDATES
      in if containers = [] then [''body''] else containers)"

text \<open>
  Lines 253-257: the part of the body of the scroll loop that the source file holds. It
  reads and merges, and updates \<^verbatim>\<open>idle_rounds\<close> from the comparison of the new total with
  \<^verbatim>\<open>previous_count\<close>. The result is the state, \<^verbatim>\<open>current_count\<close> and \<^verbatim>\<open>idle_rounds\<close>.
\<close>

definition scroll_round ::
  "'p browser \<Rightarrow> 'p harvest_state \<Rightarrow> int \<Rightarrow> nat \<Rightarrow> 'p harvest_state \<times> int \<times> nat" where
  "scroll_round B st previous_count idle_rounds =
     (let st' = read_and_merge B st;
          current_count = int (length (all_rows (acc st')))
      in (st', current_count,
          if current_count = previous_count then idle_rounds + 1 else 0))"

text \<open>
  Modelled from the spec: the rest of the body of the scroll loop after line 257 and the
  return after the loop are not in the source file, which ends at line 257 (the exit on
  the idle threshold, the assignment of \<^verbatim>\<open>current_count\<close> to \<^verbatim>\<open>previous_count\<close>, the
  scroll increment on the chosen container, and \<^verbatim>\<open>return all_rows\<close>). The spec (4.5)
  leaves the loop when the idle-round count has reached a small threshold, which is a
  parameter here, and otherwise performs one scroll increment on the first candidate
  container and compares the next total with the total of this round. The result is
  \<open>None\<close> when the loop is left, and else the state after the scroll with the new
  \<^verbatim>\<open>previous_count\<close>.
\<close>

definition scroll_tail ::
  "'p browser \<Rightarrow> nat \<Rightarrow> string \<Rightarrow> 'p harvest_state \<Rightarrow> int \<Rightarrow> nat
     \<Rightarrow> ('p harvest_state \<times> int) option" where
  "scroll_tail B idle_threshold c st current_count idle_rounds =
     (if idle_threshold \<le> idle_rounds then None
      else Some (st\<lparr>page := scroll_by B c (page st), trace := trace st @ [Scroll c]\<rparr>,
                 current_count))"

text \<open>
  Lines 250-252 with the two parts of the body: \<^verbatim>\<open>for _ in range(100)\<close>, the first numeric
  argument counting the turns that are left.
\<close>

fun scroll_loop ::
  "'p browser \<Rightarrow> nat \<Rightarrow> string \<Rightarrow> nat \<Rightarrow> 'p harvest_state \<Rightarrow> int \<Rightarrow> nat \<Rightarrow> 'p harvest_state" where
  "scroll_loop B idle_threshold c 0 st previous_count idle_rounds = st"
| "scroll_loop B idle_threshold c (Suc n) st previous_count idle_rounds =
     (case scroll_round B st previous_count idle_rounds of
        (st', current_count, idle_rounds') \<Rightarrow>
          (case scroll_tail B idle_threshold c st' current_count idle_rounds' of
             None \<Rightarrow> st'
           | Some (st'', previous_count') \<Rightarrow>
               scroll_loop B idle_threshold c n st'' previous_count' idle_rounds'))"

text \<open>
  Lines 247-250 and the loop: the containers (a list that is never empty), the first of
  which is scrolled, and the loop from \<^verbatim>\<open>previous_count = -1\<close> and
  \<^verbatim>\<open>idle_rounds = 0\<close>.
\<close>

definition scroll_phase :: "'p browser \<Rightarrow> nat \<Rightarrow> 'p harvest_state \<Rightarrow> 'p harvest_state" where
  "scroll_phase B idle_threshold st =
     (let containers = scroll_containers (view B (page st));
          st' = st\<lparr>trace := trace st @ [Probe]\<rparr>
      in scroll_loop B idle_threshold (hd containers) scroll_cap st' (- 1) 0)"

text \<open>
  Lines 230-243 and the scroll phase. The function returns \<^verbatim>\<open>all_rows\<close>; the model returns
  the final state, of which \<open>all_rows (acc st)\<close> is the returned list. An exception of
  \<^verbatim>\<open>go_next_page\<close> ends the harvest.
\<close>

definition pagination_phase :: "'p browser \<Rightarrow> 'p \<Rightarrow> error + ('p harvest_state \<times> bool)" where
  "pagination_phase B p = paginate B pagination_cap (read_and_merge B (initial_state p)) False"

definition harvest_all_pages :: "'p browser \<Rightarrow> nat \<Rightarrow> 'p \<Rightarrow> error + 'p harvest_state" where
  "harvest_all_pages B idle_threshold p =
     (case pagination_phase B p of
        Inl e \<Rightarrow> Inl e
      | Inr (st, paginated) \<Rightarrow>
          if paginated then Inr st else Inr (scroll_phase B idle_threshold st))"

section \<open>Notions used in the statements\<close>

text \<open>
  The accumulator invariant: the fingerprints of the accumulated rows are pairwise
  distinct and all recorded in \<^verbatim>\<open>seen_hashes\<close>.
\<close>

definition acc_inv :: "accumulator \<Rightarrow> bool" where
  "acc_inv a \<longleftrightarrow>
     distinct (map json_dumps_sorted (all_rows a))
     \<and> json_dumps_sorted ` set (all_rows a) \<subseteq> seen_hashes a"

text \<open>The first occurrences of the elements of a list, in the order of the list.\<close>

definition first_seen :: "'a list \<Rightarrow> 'a list" where
  "first_seen xs = rev (remdups (rev xs))"

text \<open>The events that the pagination phase logs.\<close>

definition pagination_events :: "event set" where
  "pagination_events = {Read, HasNext True, HasNext False, Advance}"

section \<open>Example pages\<close>

definition th_cell :: "string \<Rightarrow> cell" where
  "th_cell s = \<lparr>cell_tag = TH, cell_role = [], cell_text = s\<rparr>"

definition td_cell :: "string \<Rightarrow> cell" where
  "td_cell s = \<lparr>cell_tag = TD, cell_role = [], cell_text = s\<rparr>"

definition head_tr :: "cell list \<Rightarrow> tr" where
  "head_tr cs = \<lparr>tr_section = InThead, tr_role = [], tr_cells = cs\<rparr>"

definition body_tr :: "cell list \<Rightarrow> tr" where
  "body_tr cs = \<lparr>tr_section = InTbody, tr_role = [], tr_cells = cs\<rparr>"

definition plain_table :: "tr list \<Rightarrow> table" where
  "plain_table rows =
     \<lparr>table_visible = True, table_trs = rows,
      header_read_raises = False, first_row_read_raises = False\<rparr>"

definition page_of :: "table \<Rightarrow> next_button option \<Rightarrow> snapshot" where
  "page_of tb nb =
     \<lparr>aria_table = Some tb, html_table = Some tb, pagination_next = nb,
      present_selectors = []\<rparr>"

definition enabled_next :: "next_button option" where
  "enabled_next = Some \<lparr>btn_disabled = False, btn_disabled_inside = 0, btn_visible = True\<rparr>"

definition disabled_next :: "next_button option" where
  "disabled_next = Some \<lparr>btn_disabled = True, btn_disabled_inside = 0, btn_visible = True\<rparr>"

text \<open>
  The two-page scenario: the first row of each table holds the header cells
  \<^verbatim>\<open>name\<close> and \<^verbatim>\<open>price\<close>; page 1 shows row A, page 2 shows A again and B, and its
  pagination button is disabled. Both pages hold a scroll container candidate as well.
\<close>

definition row_A :: row where
  "row_A = [(''name'', ''A''), (''price'', ''1'')]"

definition row_B :: row where
  "row_B = [(''name'', ''B''), (''price'', ''2'')]"

definition scenario_page1 :: snapshot where
  "scenario_page1 =
     (page_of (plain_table [body_tr [th_cell ''name'', th_cell ''price''],
                           body_tr [td_cell ''A'', td_cell ''1'']]) enabled_next)
       \<lparr>present_selectors := [''.ag-body-viewport'']\<rparr>"

definition scenario_page2 :: snapshot where
  "scenario_page2 =
     (page_of (plain_table [body_tr [th_cell ''name'', th_cell ''price''],
                           body_tr [td_cell ''A'', td_cell ''1''],
                           body_tr [td_cell ''B'', td_cell ''2'']]) disabled_next)
       \<lparr>present_selectors := [''.ag-body-viewport'']\<rparr>"

definition scenario_browser :: "nat browser" where
  "scenario_browser =
     \<lparr>view = (\<lambda>i. if i = 0 then scenario_page1 else scenario_page2),
      click_next = Suc, scroll_by = (\<lambda>c. Suc)\<rparr>"

text \<open>
  A table without a \<^verbatim>\<open>thead\<close> whose first row holds the header \<^verbatim>\<open>name\<close> twice, and one
  data row.
\<close>

definition duplicate_header_table :: table where
  "duplicate_header_table =
     plain_table [body_tr [th_cell ''name'', th_cell ''name''],
                  body_tr [td_cell ''A'', td_cell ''B'']]"

text \<open>
  A table without a \<^verbatim>\<open>thead\<close>: the header row \<^verbatim>\<open>name\<close>, \<^verbatim>\<open>price\<close>, a row with one cell
  and a row with three cells.
\<close>

definition ragged_table :: table where
  "ragged_table =
     plain_table [body_tr [th_cell ''name'', th_cell ''price''],
                  body_tr [td_cell ''A''],
                  body_tr [td_cell ''B'', td_cell '' 2 '', td_cell ''edit'']]"


section \<open>Notions for the rounds of the scroll loop\<close>

text \<open>
  One full turn of the scroll loop that is not its last: read, merge, scroll. The total
  of round \<open>r\<close> (counted from 1) is the length of \<^verbatim>\<open>all_rows\<close> after the read of that round,
  when the loop has gone through the \<open>r - 1\<close> rounds before it. The number of rounds that
  the loop performs from a state is the number of reads that it adds to the log.
\<close>

definition scroll_step :: "'p browser \<Rightarrow> string \<Rightarrow> 'p harvest_state \<Rightarrow> 'p harvest_state" where
  "scroll_step B c st =
     (let st' = read_and_merge B st
      in st'\<lparr>page := scroll_by B c (page st'), trace := trace st' @ [Scroll c]\<rparr>)"

definition round_total :: "'p browser \<Rightarrow> string \<Rightarrow> 'p harvest_state \<Rightarrow> nat \<Rightarrow> int" where
  "round_total B c st r =
     int (length (all_rows (acc (read_and_merge B ((scroll_step B c ^^ (r - 1)) st)))))"






section \<open>Properties of the accumulator\<close>

lemma add_row_seen_mono: "seen_hashes a \<subseteq> seen_hashes (add_row a r)"
  by (auto simp: add_row_def Let_def)

lemma foldl_add_row_seen_mono: "seen_hashes a \<subseteq> seen_hashes (foldl add_row a rs)"
proof (induction rs arbitrary: a)
  case Nil
  show ?case by simp
next
  case (Cons r rs)
  have "seen_hashes a \<subseteq> seen_hashes (add_row a r)" by (rule add_row_seen_mono)
  also have "\<dots> \<subseteq> seen_hashes (foldl add_row (add_row a r) rs)" by (rule Cons.IH)
  finally show ?case by simp
qed

lemma add_row_records: "json_dumps_sorted r \<in> seen_hashes (add_row a r)"
  by (simp add: add_row_def Let_def)

lemma foldl_add_row_records:
  "json_dumps_sorted ` set rs \<subseteq> seen_hashes (foldl add_row a rs)"
proof (induction rs arbitrary: a)
  case Nil
  show ?case by simp
next
  case (Cons r rs)
  have "json_dumps_sorted r \<in> seen_hashes (add_row a r)" by (rule add_row_records)
  with foldl_add_row_seen_mono [of "add_row a r" rs]
  have "json_dumps_sorted r \<in> seen_hashes (foldl add_row (add_row a r) rs)" by blast
  with Cons.IH [of "add_row a r"] show ?case by simp
qed

lemma foldl_add_row_all_seen:
  "json_dumps_sorted ` set rs \<subseteq> seen_hashes a \<Longrightarrow> foldl add_row a rs = a"
  by (induction rs arbitrary: a) (simp_all add: add_row_def)

text \<open>
  C2. Merging the same rows a second time changes nothing: from any accumulator state and
  for any list of rows, a second call of \<^verbatim>\<open>add_rows\<close> with the same rows leaves the whole
  accumulator, so the row sequence and its length, as the first call left it.
\<close>

theorem add_rows_idempotent:
  "snd (add_rows R (snd (add_rows R a))) = snd (add_rows R a)
   \<and> all_rows (snd (add_rows R (snd (add_rows R a)))) = all_rows (snd (add_rows R a))
   \<and> length (all_rows (snd (add_rows R (snd (add_rows R a)))))
       = length (all_rows (snd (add_rows R a)))"
proof -
  have "foldl add_row (foldl add_row a R) R = foldl add_row a R"
    by (rule foldl_add_row_all_seen) (rule foldl_add_row_records)
  then show ?thesis by (simp add: add_rows_def)
qed

lemma remdups_snoc:
  "remdups (ys @ [x]) = remdups (filter (\<lambda>y. y \<noteq> x) ys) @ [x]"
  by (induction ys) auto

lemma first_seen_Cons: "first_seen (x # xs) = x # first_seen (filter (\<lambda>y. y \<noteq> x) xs)"
  by (simp add: first_seen_def remdups_snoc rev_filter)

lemma first_seen_Nil: "first_seen [] = []"
  by (simp add: first_seen_def)

lemma foldl_add_row_fingerprints:
  "map json_dumps_sorted (all_rows (foldl add_row a R)) =
     map json_dumps_sorted (all_rows a)
     @ first_seen (filter (\<lambda>h. h \<notin> seen_hashes a) (map json_dumps_sorted R))"
proof (induction R arbitrary: a)
  case Nil
  show ?case by (simp add: first_seen_Nil)
next
  case (Cons r R)
  show ?case
  proof (cases "json_dumps_sorted r \<in> seen_hashes a")
    case True
    then have "add_row a r = a" by (simp add: add_row_def)
    with Cons.IH [of a] True show ?thesis by simp
  next
    case False
    let ?a1 = "\<lparr>all_rows = all_rows a @ [r], seen_hashes = insert (json_dumps_sorted r) (seen_hashes a)\<rparr>"
    from False have step: "add_row a r = ?a1" by (simp add: add_row_def)
    have flt: "filter (\<lambda>h. h \<notin> seen_hashes ?a1) (map json_dumps_sorted R)
          = filter (\<lambda>y. y \<noteq> json_dumps_sorted r) (filter (\<lambda>h. h \<notin> seen_hashes a) (map json_dumps_sorted R))"
      by (auto intro: filter_cong)
    from Cons.IH [of ?a1] False show ?thesis
      unfolding flt by (simp add: step first_seen_Cons)
  qed
qed

lemma foldl_add_row_append:
  "\<exists>ys. all_rows (foldl add_row a R) = all_rows a @ ys \<and> subseq ys R"
proof (induction R arbitrary: a)
  case Nil
  show ?case by simp
next
  case (Cons r R)
  from Cons.IH [of "add_row a r"] obtain ys
    where ys: "all_rows (foldl add_row (add_row a r) R) = all_rows (add_row a r) @ ys" "subseq ys R"
    by blast
  show ?case
  proof (cases "json_dumps_sorted r \<in> seen_hashes a")
    case True
    then have "add_row a r = a" by (simp add: add_row_def)
    with ys show ?thesis by auto
  next
    case False
    then have "all_rows (add_row a r) = all_rows a @ [r]" by (simp add: add_row_def)
    with ys have "all_rows (foldl add_row a (r # R)) = all_rows a @ (r # ys)" "subseq (r # ys) (r # R)"
      by simp_all
    then show ?thesis by blast
  qed
qed

lemma add_row_inv: "acc_inv a \<Longrightarrow> acc_inv (add_row a r)"
  by (auto simp: acc_inv_def add_row_def Let_def)

lemma foldl_add_row_inv: "acc_inv a \<Longrightarrow> acc_inv (foldl add_row a R)"
  by (induction R arbitrary: a) (simp_all add: add_row_inv)

lemma add_rows_inv: "acc_inv a \<Longrightarrow> acc_inv (snd (add_rows R a))"
  by (simp add: add_rows_def foldl_add_row_inv)

lemma empty_accumulator_inv: "acc_inv empty_accumulator"
  by (simp add: acc_inv_def empty_accumulator_def)

lemma read_and_merge_inv: "acc_inv (acc st) \<Longrightarrow> acc_inv (acc (read_and_merge B st))"
  by (simp add: read_and_merge_def add_rows_inv)

lemma has_next_click_ok:
  "has_next_page (view B p) \<Longrightarrow> go_next_page B p = Inr (click_next B p)"
  by (auto simp: has_next_page_def go_next_page_def split: option.splits if_splits)

lemma paginate_total: "\<exists>st' pg'. paginate B n st pg = Inr (st', pg')"
proof (induction n arbitrary: st pg)
  case 0
  show ?case by simp
next
  case (Suc n)
  show ?case
  proof (cases "has_next_page (view B (page st))")
    case True
    with Suc.IH show ?thesis by (simp add: has_next_click_ok)
  next
    case False
    then show ?thesis by simp
  qed
qed

lemma paginate_inv:
  "paginate B n st pg = Inr (st', pg') \<Longrightarrow> acc_inv (acc st) \<Longrightarrow> acc_inv (acc st')"
proof (induction n arbitrary: st pg)
  case 0
  then show ?case by simp
next
  case (Suc n)
  show ?case
  proof (cases "has_next_page (view B (page st))")
    case True
    let ?st1 = "read_and_merge B (st\<lparr>page := click_next B (page st), trace := trace st @ [HasNext True, Advance]\<rparr>)"
    from True Suc.prems(1) have "paginate B n ?st1 True = Inr (st', pg')"
      by (simp add: has_next_click_ok)
    moreover from Suc.prems(2) have "acc_inv (acc ?st1)"
      by (simp add: read_and_merge_inv)
    ultimately show ?thesis by (rule Suc.IH)
  next
    case False
    with Suc.prems show ?thesis by auto
  qed
qed

lemma scroll_loop_inv:
  "acc_inv (acc st) \<Longrightarrow> acc_inv (acc (scroll_loop B thr c n st prev idle))"
proof (induction n arbitrary: st prev idle)
  case 0
  then show ?case by simp
next
  case (Suc n)
  let ?st1 = "read_and_merge B st"
  from Suc.prems have inv1: "acc_inv (acc ?st1)" by (rule read_and_merge_inv)
  then have "acc_inv (acc (?st1\<lparr>page := scroll_by B c (page ?st1), trace := trace ?st1 @ [Scroll c]\<rparr>))"
    by simp
  from Suc.IH [OF this] inv1 show ?case
    by (simp add: scroll_round_def scroll_tail_def Let_def)
qed

lemma harvest_total: "\<exists>st. harvest_all_pages B thr p = Inr st"
proof -
  obtain st pg where "pagination_phase B p = Inr (st, pg)"
    unfolding pagination_phase_def using paginate_total by blast
  then show ?thesis by (simp add: harvest_all_pages_def)
qed

lemma harvest_inv: "harvest_all_pages B thr p = Inr st \<Longrightarrow> acc_inv (acc st)"
proof -
  assume h: "harvest_all_pages B thr p = Inr st"
  obtain st1 pg where p1: "pagination_phase B p = Inr (st1, pg)"
    unfolding pagination_phase_def using paginate_total by blast
  have "acc_inv (acc (read_and_merge B (initial_state p)))"
    by (rule read_and_merge_inv) (simp add: initial_state_def empty_accumulator_inv)
  with p1 have inv1: "acc_inv (acc st1)"
    unfolding pagination_phase_def by (rule paginate_inv)
  show ?thesis
  proof (cases pg)
    case True
    with h p1 inv1 show ?thesis by (simp add: harvest_all_pages_def)
  next
    case False
    with h p1 have "st = scroll_phase B thr st1" by (simp add: harvest_all_pages_def)
    with inv1 show ?thesis by (simp add: scroll_phase_def Let_def scroll_loop_inv)
  qed
qed

section \<open>Evaluation of the example pages\<close>

lemmas example_defs =
  th_cell_def td_cell_def head_tr_def body_tr_def plain_table_def page_of_def
  enabled_next_def disabled_next_def

lemmas extract_defs =
  extract_table_rows_def find_table_def read_table_def derive_headers_def header_texts_def
  is_header_cell_def normalize_headers_def strip_def py_isspace_def row_count_def
  body_row_count_def build_row_def normalize_cells_def cells_at_def row_texts_def
  is_data_cell_def dict_of_def cell_value_def enumerate_eq_zip upt_rec

lemmas fingerprint_defs = json_dumps_sorted_def json_string_def json_escape_char_def

lemma paginate_unfold:
  "paginate B n st pg =
     (if n = 0 then Inr (st, pg)
      else if has_next_page (view B (page st)) then
        (case go_next_page B (page st) of
           Inl e \<Rightarrow> Inl e
         | Inr p' \<Rightarrow>
             paginate B (n - 1)
               (read_and_merge B (st\<lparr>page := p', trace := trace st @ [HasNext True, Advance]\<rparr>))
               True)
      else Inr (st\<lparr>trace := trace st @ [HasNext False]\<rparr>, pg))"
  by (cases n) (simp_all split: sum.splits)

lemma scenario_extract1: "extract_table_rows scenario_page1 = [row_A]"
  by (simp add: scenario_page1_def example_defs extract_defs row_A_def)

lemma scenario_extract2: "extract_table_rows scenario_page2 = [row_A, row_B]"
  by (simp add: scenario_page2_def example_defs extract_defs row_A_def row_B_def)

lemma scenario_view0: "view scenario_browser 0 = scenario_page1"
  by (simp add: scenario_browser_def)

lemma scenario_view1: "view scenario_browser (Suc 0) = scenario_page2"
  by (simp add: scenario_browser_def)

lemma scenario_next1: "has_next_page scenario_page1"
  by (simp add: has_next_page_def scenario_page1_def page_of_def enabled_next_def)

lemma scenario_next2: "\<not> has_next_page scenario_page2"
  by (simp add: has_next_page_def scenario_page2_def page_of_def disabled_next_def)

lemma scenario_click: "go_next_page scenario_browser 0 = Inr (Suc 0)"
  by (simp add: go_next_page_def scenario_view0)
     (simp add: scenario_page1_def page_of_def enabled_next_def scenario_browser_def)

lemma fingerprint_A_B: "json_dumps_sorted row_B \<noteq> json_dumps_sorted row_A"
  by (simp add: fingerprint_defs row_A_def row_B_def)

lemma scenario_merge1:
  "snd (add_rows [row_A] empty_accumulator) =
     \<lparr>all_rows = [row_A], seen_hashes = {json_dumps_sorted row_A}\<rparr>"
  by (simp add: add_rows_def add_row_def empty_accumulator_def)

lemma scenario_merge2:
  "all_rows (snd (add_rows [row_A, row_B]
      \<lparr>all_rows = [row_A], seen_hashes = {json_dumps_sorted row_A}\<rparr>)) = [row_A, row_B]"
  by (simp add: add_rows_def add_row_def fingerprint_A_B)

lemma scenario_harvest:
  "\<exists>st. harvest_all_pages scenario_browser thr 0 = Inr st
        \<and> all_rows (acc st) = [row_A, row_B]
        \<and> trace st = [Read, HasNext True, Advance, Read, HasNext False]"
  apply (simp add: harvest_all_pages_def pagination_phase_def pagination_cap_def
      initial_state_def read_and_merge_def scenario_view0 scenario_extract1 scenario_merge1)
  apply (subst paginate_unfold)
  apply (simp add: scenario_view0 scenario_next1 scenario_click read_and_merge_def
      scenario_view1 scenario_extract2)
  apply (subst paginate_unfold)
  apply (simp add: scenario_view1 scenario_next2 scenario_merge2)
  done

section \<open>The invariant of the accumulated result\<close>

text \<open>
  C3. The invariant of the accumulated result. The empty accumulator of a new harvest has
  the invariant \<open>acc_inv\<close> (pairwise distinct fingerprints, all recorded as seen). A call of
  \<^verbatim>\<open>add_rows\<close> from a state with the invariant keeps it, so no two accumulated rows share
  a fingerprint; the old sequence is a prefix of the new one, extended by a subsequence of
  the incoming rows; and the fingerprints that are appended are the new fingerprints of
  the incoming rows in the order of their first occurrence. Every harvest returns, and
  its result has the invariant. In the two-page scenario (page 2 shows row A again and
  adds row B) the result is exactly A, then B.
\<close>

theorem accumulated_result_invariant:
  assumes "acc_inv a"
  shows "acc_inv empty_accumulator
    \<and> acc_inv (snd (add_rows R a))
    \<and> distinct (map json_dumps_sorted (all_rows (snd (add_rows R a))))
    \<and> (\<exists>ys. all_rows (snd (add_rows R a)) = all_rows a @ ys \<and> subseq ys R)
    \<and> map json_dumps_sorted (all_rows (snd (add_rows R a))) =
        map json_dumps_sorted (all_rows a)
        @ first_seen (filter (\<lambda>h. h \<notin> seen_hashes a) (map json_dumps_sorted R))
    \<and> (\<exists>st. harvest_all_pages B thr p = Inr st \<and> acc_inv (acc st))
    \<and> all_rows (snd (add_rows [row_A, row_B] (snd (add_rows [row_A] empty_accumulator))))
        = [row_A, row_B]
    \<and> (\<exists>st. harvest_all_pages scenario_browser thr 0 = Inr st
             \<and> all_rows (acc st) = [row_A, row_B])"
proof -
  have inv': "acc_inv (snd (add_rows R a))"
    using assms by (rule add_rows_inv)
  then have dist: "distinct (map json_dumps_sorted (all_rows (snd (add_rows R a))))"
    by (simp add: acc_inv_def)
  have app: "\<exists>ys. all_rows (snd (add_rows R a)) = all_rows a @ ys \<and> subseq ys R"
    by (simp add: add_rows_def foldl_add_row_append)
  have fps: "map json_dumps_sorted (all_rows (snd (add_rows R a))) =
        map json_dumps_sorted (all_rows a)
        @ first_seen (filter (\<lambda>h. h \<notin> seen_hashes a) (map json_dumps_sorted R))"
    by (simp add: add_rows_def foldl_add_row_fingerprints)
  from harvest_total [of B thr p]
  obtain st where st: "harvest_all_pages B thr p = Inr st" ..
  then have "acc_inv (acc st)" by (rule harvest_inv)
  with st have harv: "\<exists>st. harvest_all_pages B thr p = Inr st \<and> acc_inv (acc st)"
    by blast
  have two: "all_rows (snd (add_rows [row_A, row_B] (snd (add_rows [row_A] empty_accumulator))))
        = [row_A, row_B]"
    by (simp only: scenario_merge1 scenario_merge2)
  from scenario_harvest [of thr]
  have scen: "\<exists>st. harvest_all_pages scenario_browser thr 0 = Inr st
             \<and> all_rows (acc st) = [row_A, row_B]"
    by blast
  from empty_accumulator_inv inv' dist app fps harv two scen
  show ?thesis by blast
qed

theorem accumulated_result_invariant_witness:
  "acc_inv empty_accumulator
   \<and> distinct (map json_dumps_sorted
        (all_rows (snd (add_rows [row_A, row_B, row_A] empty_accumulator))))
   \<and> map json_dumps_sorted (all_rows (snd (add_rows [row_A, row_B, row_A] empty_accumulator)))
       = [json_dumps_sorted row_A, json_dumps_sorted row_B]"
proof -
  have inv: "acc_inv empty_accumulator"
    by (simp add: acc_inv_def empty_accumulator_def)
  have fs: "first_seen [json_dumps_sorted row_A, json_dumps_sorted row_B, json_dumps_sorted row_A]
      = [json_dumps_sorted row_A, json_dumps_sorted row_B]"
    using fingerprint_A_B by (auto simp: first_seen_def)
  from accumulated_result_invariant
    [OF inv, where R = "[row_A, row_B, row_A]" and B = scenario_browser and thr = 2 and p = 0]
    fs inv
  show ?thesis
    by (simp add: empty_accumulator_def fingerprint_A_B fingerprint_A_B [symmetric])
qed

section \<open>The return value of the merge and the fingerprint\<close>

lemma length_first_seen: "length (first_seen xs) = card (set xs)"
  by (simp add: first_seen_def length_remdups_card_conv)

text \<open>
  C9 (as stated). \<^verbatim>\<open>add_rows\<close> does not return the number of rows it added: on the empty
  accumulator and the single row A one row is added, and the call evaluates to
  \<^verbatim>\<open>None\<close>, not to the integer 1.
\<close>

theorem add_rows_returns_count_counterexample:
  "length (all_rows (snd (add_rows [row_A] empty_accumulator)))
     = length (all_rows empty_accumulator) + 1
   \<and> fst (add_rows [row_A] empty_accumulator) \<noteq> PyInt 1"
  by (simp add: add_rows_def add_row_def empty_accumulator_def)

text \<open>
  C9 (amended). \<^verbatim>\<open>add_rows\<close> returns \<^verbatim>\<open>None\<close>; the number of rows a call adds shows
  only as the growth of \<^verbatim>\<open>all_rows\<close>, which is the number of distinct fingerprints among
  the incoming rows that were not in the seen-set before the call.
\<close>

theorem add_rows_returns_none:
  "fst (add_rows R a) = PyNone
   \<and> length (all_rows (snd (add_rows R a)))
       = length (all_rows a) + card (json_dumps_sorted ` set R - seen_hashes a)"
proof -
  have "length (map json_dumps_sorted (all_rows (foldl add_row a R)))
      = length (all_rows a)
        + length (first_seen (filter (\<lambda>h. h \<notin> seen_hashes a) (map json_dumps_sorted R)))"
    by (simp only: foldl_add_row_fingerprints length_append length_map)
  moreover have "set (filter (\<lambda>h. h \<notin> seen_hashes a) (map json_dumps_sorted R))
      = json_dumps_sorted ` set R - seen_hashes a"
    by auto
  ultimately show ?thesis
    by (simp add: add_rows_def length_first_seen)
qed

text \<open>
  C8 (as stated). The fingerprint does not depend on the insertion order of the keys:
  the rows \<^verbatim>\<open>{"name": "A", "price": "1"}\<close> and \<^verbatim>\<open>{"price": "1", "name": "A"}\<close> differ in
  key order and have the same fingerprint.
\<close>

theorem fingerprint_order_counterexample:
  "[(''name'', ''A''), (''price'', ''1'')] \<noteq> [(''price'', ''1''), (''name'', ''A'')]
   \<and> json_dumps_sorted [(''name'', ''A''), (''price'', ''1'')]
       = json_dumps_sorted [(''price'', ''1''), (''name'', ''A'')]"
  by (simp add: json_dumps_sorted_def)

text \<open>
  C8 (amended). The fingerprint is a total function of the key-value pairs of a row and
  does not depend on their insertion order: two rows (dicts, so with pairwise distinct
  keys) that hold the same key-value pairs have the same fingerprint, in whatever order
  the keys were inserted; in particular rows with identical keys and values in identical
  order have identical fingerprints.
\<close>

theorem fingerprint_ignores_key_order:
  assumes "distinct (map fst r1)" and "distinct (map fst r2)" and "set r1 = set r2"
  shows "json_dumps_sorted r1 = json_dumps_sorted r2"
proof -
  from assms(1) have d1: "distinct r1" and inj: "inj_on fst (set r1)"
    by (simp_all add: distinct_map)
  from assms(2) have d2: "distinct r2"
    by (simp add: distinct_map)
  from d1 d2 assms(3) have "mset r1 = mset r2"
    by (simp add: set_eq_iff_mset_eq_distinct)
  then have "sort_key fst r1 = sort_key fst r2"
    using inj by (rule sort_key_eq_sort_key)
  then show ?thesis by (simp add: json_dumps_sorted_def)
qed

theorem fingerprint_ignores_key_order_witness:
  "distinct (map fst [(''name'', ''A''), (''price'', ''1'')])
   \<and> distinct (map fst [(''price'', ''1''), (''name'', ''A'')])
   \<and> set [(''name'', ''A''), (''price'', ''1'')] = set [(''price'', ''1''), (''name'', ''A'')]
   \<and> json_dumps_sorted [(''name'', ''A''), (''price'', ''1'')]
       = json_dumps_sorted [(''price'', ''1''), (''name'', ''A'')]"
proof -
  have h1: "distinct (map fst [(''name'', ''A''), (''price'', ''1'')])" by simp
  have h2: "distinct (map fst [(''price'', ''1''), (''name'', ''A'')])" by simp
  have h3: "set [(''name'', ''A''), (''price'', ''1'')] = set [(''price'', ''1''), (''name'', ''A'')]"
    by auto
  from h1 h2 h3 fingerprint_ignores_key_order [OF h1 h2 h3] show ?thesis by blast
qed

section \<open>The pagination loop\<close>

lemma trace_read_and_merge: "trace (read_and_merge B st) = trace st @ [Read]"
  by (simp add: read_and_merge_def)

lemma page_read_and_merge: "page (read_and_merge B st) = page st"
  by (simp add: read_and_merge_def)

lemma paginate_advances:
  assumes "\<forall>i<n. has_next_page (view B ((click_next B ^^ i) (page st)))"
    and "n < k \<longrightarrow> \<not> has_next_page (view B ((click_next B ^^ n) (page st)))"
    and "n \<le> k"
  shows "\<exists>st' pg'. paginate B k st pg = Inr (st', pg')
           \<and> count_list (trace st') Advance = count_list (trace st) Advance + n
           \<and> page st' = (click_next B ^^ n) (page st)
           \<and> (pg' \<longleftrightarrow> pg \<or> 0 < n)"
  using assms
proof (induction k arbitrary: st pg n)
  case 0
  then show ?case by simp
next
  case (Suc k)
  show ?case
  proof (cases n)
    case 0
    with Suc.prems(2) have "\<not> has_next_page (view B (page st))" by simp
    with 0 show ?thesis by simp
  next
    case (Suc m)
    let ?st1 = "read_and_merge B
      (st\<lparr>page := click_next B (page st), trace := trace st @ [HasNext True, Advance]\<rparr>)"
    from Suc Suc.prems(1) have hn: "has_next_page (view B (page st))"
      by (metis funpow_0 zero_less_Suc)
    have p1: "page ?st1 = click_next B (page st)"
      by (simp add: page_read_and_merge)
    have c1: "count_list (trace ?st1) Advance = count_list (trace st) Advance + 1"
      by (simp add: trace_read_and_merge)
    have a1: "\<forall>i<m. has_next_page (view B ((click_next B ^^ i) (page ?st1)))"
    proof (intro allI impI)
      fix i assume "i < m"
      with Suc have "Suc i < n" by simp
      with Suc.prems(1) have "has_next_page (view B ((click_next B ^^ Suc i) (page st)))"
        by blast
      then show "has_next_page (view B ((click_next B ^^ i) (page ?st1)))"
        by (simp add: p1 funpow_swap1)
    qed
    have a2: "m < k \<longrightarrow> \<not> has_next_page (view B ((click_next B ^^ m) (page ?st1)))"
      using Suc Suc.prems(2) by (simp add: p1 funpow_swap1)
    have a3: "m \<le> k" using Suc Suc.prems(3) by simp
    from Suc.IH [OF a1 a2 a3, of True]
    obtain st' pg' where r: "paginate B k ?st1 True = Inr (st', pg')"
      "count_list (trace st') Advance = count_list (trace ?st1) Advance + m"
      "page st' = (click_next B ^^ m) (page ?st1)" "pg'"
      by blast
    from hn r(1) have "paginate B (Suc k) st pg = Inr (st', pg')"
      by (simp add: has_next_click_ok)
    moreover from r(2) c1 Suc have "count_list (trace st') Advance = count_list (trace st) Advance + n"
      by simp
    moreover from r(3) Suc have "page st' = (click_next B ^^ n) (page st)"
      by (simp add: p1 funpow_swap1)
    moreover from r(4) Suc have "pg' \<longleftrightarrow> pg \<or> 0 < n" by simp
    ultimately show ?thesis by blast
  qed
qed

lemma scroll_loop_no_advance:
  "count_list (trace (scroll_loop B thr c n st prev idle)) Advance = count_list (trace st) Advance"
proof (induction n arbitrary: st prev idle)
  case 0
  show ?case by simp
next
  case (Suc n)
  let ?st1 = "read_and_merge B st"
  let ?st2 = "?st1\<lparr>page := scroll_by B c (page ?st1), trace := trace ?st1 @ [Scroll c]\<rparr>"
  have "count_list (trace ?st2) Advance = count_list (trace st) Advance"
    by (simp add: trace_read_and_merge)
  with Suc.IH [of ?st2] show ?case
    by (simp add: scroll_round_def scroll_tail_def Let_def trace_read_and_merge)
qed

lemma scroll_phase_no_advance:
  "count_list (trace (scroll_phase B thr st)) Advance = count_list (trace st) Advance"
  by (simp add: scroll_phase_def Let_def scroll_loop_no_advance)

text \<open>
  C4. When the first \<open>n\<close> calls of \<^verbatim>\<open>has_next_page\<close> return true and the next one returns
  false (so the call that returns false is call number \<open>N = n + 1\<close>), and \<open>n\<close> does not exceed
  the cap of 200 turns, the pagination loop is left after exactly \<open>n = N - 1\<close> calls of
  \<^verbatim>\<open>go_next_page\<close>, on the page reached by \<open>n\<close> clicks; the whole harvest performs exactly
  these \<open>n\<close> advances. The page states are those that the clicks produce from the first
  page.
\<close>

theorem pagination_advance_count:
  assumes "\<forall>i<n. has_next_page (view B ((click_next B ^^ i) p))"
    and "\<not> has_next_page (view B ((click_next B ^^ n) p))"
    and "n \<le> pagination_cap"
  shows "(\<exists>st pg. pagination_phase B p = Inr (st, pg)
            \<and> count_list (trace st) Advance = n
            \<and> page st = (click_next B ^^ n) p)
       \<and> (\<exists>st. harvest_all_pages B thr p = Inr st \<and> count_list (trace st) Advance = n)"
proof -
  let ?st0 = "read_and_merge B (initial_state p)"
  have p0: "page ?st0 = p" by (simp add: page_read_and_merge initial_state_def)
  have c0: "count_list (trace ?st0) Advance = 0"
    by (simp add: trace_read_and_merge initial_state_def)
  from assms(1) have a1: "\<forall>i<n. has_next_page (view B ((click_next B ^^ i) (page ?st0)))"
    by (simp add: p0)
  from assms(2) have a2: "n < pagination_cap \<longrightarrow>
      \<not> has_next_page (view B ((click_next B ^^ n) (page ?st0)))"
    by (simp add: p0)
  from paginate_advances [OF a1 a2 assms(3), of False]
  obtain st pg where r: "paginate B pagination_cap ?st0 False = Inr (st, pg)"
    "count_list (trace st) Advance = count_list (trace ?st0) Advance + n"
    "page st = (click_next B ^^ n) (page ?st0)"
    by blast
  then have ph: "pagination_phase B p = Inr (st, pg)"
    and cnt: "count_list (trace st) Advance = n"
    and pg: "page st = (click_next B ^^ n) p"
    by (simp_all add: pagination_phase_def c0 p0)
  have "\<exists>st'. harvest_all_pages B thr p = Inr st' \<and> count_list (trace st') Advance = n"
  proof (cases pg)
    case True
    with ph cnt show ?thesis by (simp add: harvest_all_pages_def)
  next
    case False
    with ph cnt show ?thesis
      by (simp add: harvest_all_pages_def scroll_phase_no_advance)
  qed
  with ph cnt pg show ?thesis by blast
qed

theorem pagination_advance_count_witness:
  "has_next_page (view scenario_browser 0)
   \<and> \<not> has_next_page (view scenario_browser 1)
   \<and> (\<exists>st pg. pagination_phase scenario_browser 0 = Inr (st, pg)
         \<and> count_list (trace st) Advance = 1 \<and> page st = 1)
   \<and> (\<exists>st. harvest_all_pages scenario_browser 3 0 = Inr st
         \<and> count_list (trace st) Advance = 1)"
proof -
  have h0: "has_next_page (view scenario_browser 0)"
    by (simp add: scenario_view0 scenario_next1)
  have h1: "\<not> has_next_page (view scenario_browser 1)"
    using scenario_view1 scenario_next2 by simp
  have a1: "\<forall>i<1. has_next_page (view scenario_browser ((click_next scenario_browser ^^ i) 0))"
    using h0 by simp
  have a2: "\<not> has_next_page (view scenario_browser ((click_next scenario_browser ^^ 1) 0))"
    using h1 by (simp add: scenario_browser_def)
  have a3: "(1::nat) \<le> pagination_cap" by (simp add: pagination_cap_def)
  from pagination_advance_count [OF a1 a2 a3, of 3] h0 h1
  show ?thesis by (simp add: scenario_browser_def)
qed

section \<open>Strategy exclusivity\<close>

lemma paginate_trace:
  assumes "paginate B k st pg = Inr (st', pg')"
    and "set (trace st) \<subseteq> pagination_events"
    and "pg \<longleftrightarrow> HasNext True \<in> set (trace st)"
  shows "set (trace st') \<subseteq> pagination_events \<and> (pg' \<longleftrightarrow> HasNext True \<in> set (trace st'))"
  using assms
proof (induction k arbitrary: st pg)
  case 0
  then show ?case by auto
next
  case (Suc k)
  show ?case
  proof (cases "has_next_page (view B (page st))")
    case True
    let ?st1 = "read_and_merge B
      (st\<lparr>page := click_next B (page st), trace := trace st @ [HasNext True, Advance]\<rparr>)"
    from True Suc.prems(1) have "paginate B k ?st1 True = Inr (st', pg')"
      by (simp add: has_next_click_ok)
    moreover from Suc.prems(2) have "set (trace ?st1) \<subseteq> pagination_events"
      by (simp add: trace_read_and_merge pagination_events_def)
    moreover have "True \<longleftrightarrow> HasNext True \<in> set (trace ?st1)"
      by (simp add: trace_read_and_merge)
    ultimately show ?thesis by (rule Suc.IH)
  next
    case False
    with Suc.prems show ?thesis by (auto simp: pagination_events_def)
  qed
qed

lemma scroll_loop_trace:
  "set (trace (scroll_loop B thr c n st prev idle)) \<subseteq> set (trace st) \<union> {Read, Scroll c}"
proof (induction n arbitrary: st prev idle)
  case 0
  show ?case by auto
next
  case (Suc n)
  let ?st1 = "read_and_merge B st"
  let ?st2 = "?st1\<lparr>page := scroll_by B c (page ?st1), trace := trace ?st1 @ [Scroll c]\<rparr>"
  have "set (trace ?st2) \<subseteq> set (trace st) \<union> {Read, Scroll c}"
    by (auto simp: trace_read_and_merge)
  with Suc.IH [of ?st2] show ?case
    by (auto simp: scroll_round_def scroll_tail_def Let_def trace_read_and_merge)
qed

text \<open>
  C5. Every harvest returns, and if its log holds a call of \<^verbatim>\<open>has_next_page\<close> that returned
  true, then the harvest is the pagination phase alone: the returned state is the state in
  which the pagination loop was left, and the log holds neither the probe for scroll
  containers nor any scroll step, whatever containers the pages hold.
\<close>

theorem pagination_excludes_scroll:
  "\<exists>st. harvest_all_pages B thr p = Inr st
      \<and> (HasNext True \<in> set (trace st) \<longrightarrow>
           pagination_phase B p = Inr (st, True)
           \<and> Probe \<notin> set (trace st)
           \<and> (\<forall>c. Scroll c \<notin> set (trace st)))"
proof -
  let ?st0 = "read_and_merge B (initial_state p)"
  obtain st1 pg where ph: "paginate B pagination_cap ?st0 False = Inr (st1, pg)"
    using paginate_total by blast
  have "set (trace ?st0) \<subseteq> pagination_events"
    by (simp add: trace_read_and_merge initial_state_def pagination_events_def)
  moreover have "False \<longleftrightarrow> HasNext True \<in> set (trace ?st0)"
    by (simp add: trace_read_and_merge initial_state_def)
  ultimately have tr: "set (trace st1) \<subseteq> pagination_events"
    and flag: "pg \<longleftrightarrow> HasNext True \<in> set (trace st1)"
    using paginate_trace [OF ph] by blast+
  show ?thesis
  proof (cases pg)
    case True
    with ph have "harvest_all_pages B thr p = Inr st1" "pagination_phase B p = Inr (st1, True)"
      by (simp_all add: harvest_all_pages_def pagination_phase_def)
    moreover from tr have "Probe \<notin> set (trace st1)" "\<forall>c. Scroll c \<notin> set (trace st1)"
      by (auto simp: pagination_events_def)
    ultimately show ?thesis by blast
  next
    case False
    with ph have h: "harvest_all_pages B thr p = Inr (scroll_phase B thr st1)"
      by (simp add: harvest_all_pages_def pagination_phase_def)
    from False flag have "HasNext True \<notin> set (trace st1)" by simp
    with scroll_loop_trace [of B thr _ scroll_cap "st1\<lparr>trace := trace st1 @ [Probe]\<rparr>" "- 1" 0]
    have "HasNext True \<notin> set (trace (scroll_phase B thr st1))"
      by (auto simp: scroll_phase_def Let_def)
    with h show ?thesis by blast
  qed
qed

theorem pagination_excludes_scroll_witness:
  "scroll_containers (view scenario_browser 0) = [''.ag-body-viewport'']
   \<and> (\<exists>st. harvest_all_pages scenario_browser 3 0 = Inr st
         \<and> HasNext True \<in> set (trace st)
         \<and> pagination_phase scenario_browser 0 = Inr (st, True)
         \<and> Probe \<notin> set (trace st)
         \<and> (\<forall>c. Scroll c \<notin> set (trace st)))"
proof -
  have sc: "scroll_containers (view scenario_browser 0) = [''.ag-body-viewport'']"
    by (simp add: scenario_view0 scroll_containers_def scenario_page1_def page_of_def
        SCROLLABLE_CANDIDATES_def)
  from scenario_harvest [of 3] obtain st'
    where s: "harvest_all_pages scenario_browser 3 0 = Inr st'"
      "trace st' = [Read, HasNext True, Advance, Read, HasNext False]"
    by blast
  from pagination_excludes_scroll [of scenario_browser 3 0] s sc
  show ?thesis by auto
qed

section \<open>Table extraction\<close>

lemma dict_set_fresh: "k \<notin> fst ` set d \<Longrightarrow> dict_set k v d = d @ [(k, v)]"
  by (induction d) auto

lemma foldl_dict_set_distinct:
  "distinct (map fst (d @ items)) \<Longrightarrow>
     foldl (\<lambda>d (k, v). dict_set k v d) d items = d @ items"
proof (induction items arbitrary: d)
  case Nil
  show ?case by simp
next
  case (Cons kv items)
  obtain k v where kv: "kv = (k, v)" by (cases kv)
  from Cons.prems kv have fresh: "k \<notin> fst ` set d" by auto
  from Cons.prems kv have "distinct (map fst ((d @ [(k, v)]) @ items))" by simp
  from Cons.IH [OF this] fresh kv show ?case by (simp add: dict_set_fresh)
qed

lemma dict_of_distinct: "distinct (map fst items) \<Longrightarrow> dict_of items = items"
  using foldl_dict_set_distinct [of "[]" items] by (simp add: dict_of_def)

lemma strip_Nil: "strip [] = []"
  by (simp add: strip_def)

lemma normalize_cells_take:
  "headers \<noteq> [] \<Longrightarrow>
     normalize_cells headers cells =
       take (length headers) (cells @ replicate (length headers - length cells) [])"
  by (simp add: normalize_cells_def)

lemma length_normalize_cells:
  "headers \<noteq> [] \<Longrightarrow> length (normalize_cells headers cells) = length headers"
  by (simp add: normalize_cells_take)

lemma build_row_distinct:
  assumes "headers \<noteq> []" and "distinct headers"
  shows "build_row headers cells =
     zip headers (map strip
       (take (length headers) (cells @ replicate (length headers - length cells) [])))"
proof -
  let ?nc = "normalize_cells headers cells"
  have len: "length ?nc = length headers"
    using assms(1) by (rule length_normalize_cells)
  have items: "map (\<lambda>i. (headers ! i, cell_value ?nc i)) [0..<length headers]
      = zip headers (map strip ?nc)"
    by (rule nth_equalityI) (simp_all add: len cell_value_def)
  have "distinct (map fst (zip headers (map strip ?nc)))"
    using assms(2) by (simp add: len)
  then have "dict_of (zip headers (map strip ?nc)) = zip headers (map strip ?nc)"
    by (rule dict_of_distinct)
  with assms(1) items show ?thesis
    by (simp add: build_row_def Let_def normalize_cells_take)
qed

text \<open>
  C1 (as stated). In the table whose header row holds \<^verbatim>\<open>name\<close> twice, the derived header
  list has two entries, and the row that is returned for the cells A, B has one
  key-value pair: the second cell has replaced the first under the same key.
\<close>

theorem row_length_counterexample:
  "find_table (page_of duplicate_header_table None) = Some duplicate_header_table
   \<and> fst (derive_headers duplicate_header_table) = [''name'', ''name'']
   \<and> extract_table_rows (page_of duplicate_header_table None) = [[(''name'', ''B'')]]
   \<and> length [(''name'', ''B'')] \<noteq> length [''name'', ''name'']"
  by (simp add: duplicate_header_table_def example_defs extract_defs)

text \<open>
  C1 (amended). For every table read by \<^verbatim>\<open>extract_table_rows\<close> in which a non-empty list of
  pairwise distinct header keys was derived, every returned row has exactly as many
  key-value pairs as there are headers, with the headers as its keys in their order: the
  value of a column is the stripped text of the cell at that position, the empty text
  where the row has fewer cells, and cells beyond the header count are dropped.
\<close>

theorem row_length_equals_header_count:
  assumes "find_table s = Some tb"
    and "derive_headers tb = (headers, row_start_idx)"
    and "headers \<noteq> []"
    and "distinct headers"
  shows "(\<forall>row \<in> set (extract_table_rows s).
            length row = length headers \<and> map fst row = headers)
    \<and> extract_table_rows s =
        map (\<lambda>r. zip headers (map strip
                (take (length headers)
                   (cells_at tb r @ replicate (length headers - length (cells_at tb r)) []))))
          [row_start_idx..<row_count tb]"
proof -
  have rows: "extract_table_rows s =
        map (\<lambda>r. zip headers (map strip
                (take (length headers)
                   (cells_at tb r @ replicate (length headers - length (cells_at tb r)) []))))
          [row_start_idx..<row_count tb]"
    using assms by (simp add: extract_table_rows_def read_table_def build_row_distinct)
  have "\<forall>row \<in> set (extract_table_rows s).
            length row = length headers \<and> map fst row = headers"
    unfolding rows by auto
  with rows show ?thesis by blast
qed

theorem row_length_equals_header_count_witness:
  "find_table (page_of ragged_table None) = Some ragged_table
   \<and> derive_headers ragged_table = ([''name'', ''price''], 1)
   \<and> extract_table_rows (page_of ragged_table None) =
       [[(''name'', ''A''), (''price'', [])], [(''name'', ''B''), (''price'', ''2'')]]"
proof -
  have f: "find_table (page_of ragged_table None) = Some ragged_table"
    by (simp add: find_table_def page_of_def ragged_table_def plain_table_def)
  have d: "derive_headers ragged_table = ([''name'', ''price''], 1)"
    by (simp add: ragged_table_def example_defs extract_defs)
  have h: "[''name'', ''price''] \<noteq> []" by simp
  have dist: "distinct [''name'', ''price'']" by simp
  have rc: "row_count ragged_table = 3"
    by (simp add: ragged_table_def example_defs row_count_def body_row_count_def)
  have c1: "cells_at ragged_table (Suc 0) = [''A'']"
    by (simp add: ragged_table_def example_defs cells_at_def row_texts_def is_data_cell_def)
  have c2: "cells_at ragged_table 2 = [''B'', '' 2 '', ''edit'']"
    by (simp add: ragged_table_def example_defs cells_at_def row_texts_def is_data_cell_def)
  have u: "[Suc 0..<3] = [Suc 0, 2]" by (simp add: upt_rec)
  from row_length_equals_header_count [OF f d h dist] f d
  show ?thesis
    by (simp add: rc u c1 c2 strip_def py_isspace_def)
qed

section \<open>Header fallback and the rows that are read\<close>












section \<open>The rounds of the scroll loop\<close>


lemma trace_scroll_step: "trace (scroll_step B c st) = trace st @ [Read, Scroll c]"
  by (simp add: scroll_step_def Let_def trace_read_and_merge)



lemma scroll_loop_Suc:
  "scroll_loop B thr c (Suc n) st prev idle =
     (let cur = round_total B c st 1;
          idle' = (if cur = prev then idle + 1 else 0)
      in if thr \<le> idle' then read_and_merge B st
         else scroll_loop B thr c n (scroll_step B c st) cur idle')"
  by (simp add: scroll_round_def scroll_tail_def round_total_def scroll_step_def Let_def)







lemma scroll_loop_read_mono:
  "count_list (trace st) Read \<le> count_list (trace (scroll_loop B thr c n st prev idle)) Read"
proof (induction n arbitrary: st prev idle)
  case 0
  show ?case by simp
next
  case (Suc n)
  have "count_list (trace st) Read
      \<le> count_list (trace (scroll_loop B thr c n (scroll_step B c st) cur idle')) Read" for cur idle'
    using Suc.IH [of "scroll_step B c st" cur idle'] by (simp add: trace_scroll_step)
  then show ?case
    by (simp add: scroll_loop_Suc Let_def trace_read_and_merge del: scroll_loop.simps)
qed













section \<open>The page that grows by one row per scroll\<close>












section \<open>Termination of the scroll loop and of the harvest\<close>




end
